theory Spec2Isabelle
  imports Complex_Main
begin

section \<open>Data model\<close>

text \<open>
  The notebooks work with two distribution objects, \<open>Hist\<close> and \<open>Pmf\<close>. Both are
  labelled one-dimensional tables: a row pairs a quantity with a value (a count for a
  \<open>Hist\<close>, a probability mass for a \<open>Pmf\<close>), and the table carries an optional name.
  The attribute \<open>qs\<close> reads the column of quantities, \<open>ps\<close> the column of values.

  Probability masses are 64-bit floats in the notebooks. They are modelled as exact real
  numbers: every statement below about masses is a statement of exact arithmetic, so
  rounding is not part of the model.
\<close>

record ('q, 'v) series =
  items :: "('q \<times> 'v) list"
  name :: "string option"

type_synonym 'q hist = "('q, int) series"
type_synonym 'q pmf = "('q, real) series"

definition qs :: "('q, 'v) series \<Rightarrow> 'q list" where
  "qs s = map fst (items s)"

definition ps :: "('q, 'v) series \<Rightarrow> 'v list" where
  "ps s = map snd (items s)"

text \<open>
  Failures. \<open>ValueError\<close>: a table built from columns of different lengths, or the
  position of the maximum of an empty table. \<open>ZeroTotal\<close>: a division of the values by
  a total that is exactly zero. \<open>ZeroQuantity\<close>: a division of a mass by a quantity that
  is exactly zero. Under floating-point arithmetic the last division yields an infinity or
  a NaN; the real numbers have neither, so the model stops there.
\<close>

datatype error = ValueError | ZeroTotal | ZeroQuantity

section \<open>Operations of the distribution library\<close>

text \<open>
  Modelled from the spec: the classes \<open>Hist\<close> and \<open>Pmf\<close> are imported by the notebooks
  from the library \<open>empiricaldist\<close>; their code is not part of the repository. The
  definitions of this section follow the contract of the specification and what the
  notebooks say about each method.
\<close>

text \<open>
  Modelled from the spec: \<open>Pmf(ps, qs, name)\<close>, building a table "directly from parallel
  sequences" of masses and quantities. The masses need not sum to 1.
\<close>

definition Pmf :: "real list \<Rightarrow> 'q list \<Rightarrow> string option \<Rightarrow> error + 'q pmf" where
  "Pmf ps' qs' name' =
     (if length ps' \<noteq> length qs' then Inl ValueError
      else Inr \<lparr>items = zip qs' ps', name = name'\<rparr>)"

text \<open>
  Modelled from the spec: \<open>sum()\<close>, the "sum of all counts" of a \<open>Hist\<close> and the sum of
  the masses of a \<open>Pmf\<close>.
\<close>

definition series_sum :: "('q, 'v::monoid_add) series \<Rightarrow> 'v" where
  "series_sum s = sum_list (ps s)"

text \<open>
  Modelled from the spec: the lookup written \<open>hist(q)\<close> and \<open>pmf(q)\<close>, which "returns
  the count for quantity q, or 0 if absent". The first row for the quantity decides.
\<close>

fun lookup_items :: "('q \<times> 'v::zero) list \<Rightarrow> 'q \<Rightarrow> 'v" where
  "lookup_items [] q = 0"
| "lookup_items ((k, v) # rest) q = (if k = q then v else lookup_items rest q)"

definition lookup :: "('q, 'v::zero) series \<Rightarrow> 'q \<Rightarrow> 'v" where
  "lookup s q = lookup_items (items s) q"

text \<open>
  Modelled from the spec: \<open>Hist.from_seq(values, name)\<close>, which "tallies occurrences":
  one row for each distinct value, in ascending order of quantity, holding the number of
  times the value occurs.
\<close>

definition Hist_from_seq :: "'q::linorder list \<Rightarrow> string option \<Rightarrow> 'q hist" where
  "Hist_from_seq values name' =
     \<lparr>items = map (\<lambda>q. (q, int (count_list values q))) (sort (remdups values)),
      name = name'\<rparr>"

text \<open>
  Modelled from the spec: the \<open>Pmf\<close> derived from a \<open>Hist\<close> "by dividing every count by
  the Hist's total", written \<open>n = hist.sum(); pmf = hist / n\<close> in the notebook, and
  \<open>Pmf.from_seq\<close>, "equivalent to building a Hist then dividing every count by the
  total".
\<close>

definition Pmf_of_hist :: "'q hist \<Rightarrow> error + 'q pmf" where
  "Pmf_of_hist hist =
     (let n = series_sum hist
      in if n = 0 then Inl ZeroTotal
         else Inr \<lparr>items = map (\<lambda>(q, c). (q, real_of_int c / real_of_int n)) (items hist),
                   name = name hist\<rparr>)"

definition Pmf_from_seq :: "'q::linorder list \<Rightarrow> string option \<Rightarrow> error + 'q pmf" where
  "Pmf_from_seq values name' = Pmf_of_hist (Hist_from_seq values name')"

text \<open>
  Modelled from the spec: \<open>normalize()\<close>, which "divides every mass by the current sum of
  masses and returns that pre-normalization sum" and "fails when the sum is exactly zero".
  The Python method changes the object in place; here the changed table is returned next
  to the sum.
\<close>

definition normalize_pmf :: "'q pmf \<Rightarrow> error + (real \<times> 'q pmf)" where
  "normalize_pmf pmf =
     (let total = series_sum pmf
      in if total = 0 then Inl ZeroTotal
         else Inr (total, pmf\<lparr>items := map (\<lambda>(q, p). (q, p / total)) (items pmf)\<rparr>))"

text \<open>
  \<open>mean()\<close>: the notebook computes \<open>np.sum(pmf.ps * pmf.qs)\<close> and says that the method
  "does the same thing".
\<close>

definition mean :: "real pmf \<Rightarrow> real" where
  "mean pmf = sum_list (map2 (*) (ps pmf) (qs pmf))"

text \<open>
  Modelled from the spec: \<open>mode()\<close>. The notebook says that it does the same as
  \<open>idxmax()\<close>, the label of the first row that holds the maximum value; an empty table
  has no maximum.
\<close>

fun idxmax_from :: "'q \<Rightarrow> 'v::linorder \<Rightarrow> ('q \<times> 'v) list \<Rightarrow> 'q" where
  "idxmax_from bq bv [] = bq"
| "idxmax_from bq bv ((q, v) # rest) =
     (if bv < v then idxmax_from q v rest else idxmax_from bq bv rest)"

definition idxmax :: "('q, 'v::linorder) series \<Rightarrow> error + 'q" where
  "idxmax s = (case items s of [] \<Rightarrow> Inl ValueError | (q, v) # rest \<Rightarrow> Inr (idxmax_from q v rest))"

definition mode :: "('q, 'v::linorder) series \<Rightarrow> error + 'q" where
  "mode s = idxmax s"

section \<open>The class size paradox: \<open>bias\<close> and \<open>unbias\<close>\<close>

text \<open>
  \<^verbatim>\<open>
  def bias(pmf, name):
      qs = pmf.qs
      ps = pmf.ps * pmf.qs
      new_pmf = Pmf(ps, pmf.qs, name=name)
      new_pmf.normalize()
      return new_pmf

  def unbias(pmf, name):
      qs = pmf.qs
      ps = pmf.ps / pmf.qs

      new_pmf = Pmf(ps, pmf.qs, name=name)
      new_pmf.normalize()
      return new_pmf
  \<close>
  First as functions from the value of the argument to the value of the result.
\<close>

definition bias :: "real pmf \<Rightarrow> string option \<Rightarrow> error + real pmf" where
  "bias pmf name' =
     (let qs' = qs pmf;
          ps' = map2 (*) (ps pmf) (qs pmf)
      in case Pmf ps' (qs pmf) name' of
           Inl e \<Rightarrow> Inl e
         | Inr new_pmf \<Rightarrow>
             (case normalize_pmf new_pmf of
                Inl e \<Rightarrow> Inl e
              | Inr (total', new_pmf') \<Rightarrow> Inr new_pmf'))"

definition unbias :: "real pmf \<Rightarrow> string option \<Rightarrow> error + real pmf" where
  "unbias pmf name' =
     (if 0 \<in> set (qs pmf) then Inl ZeroQuantity
      else let qs' = qs pmf;
               ps' = map2 (/) (ps pmf) (qs pmf)
           in case Pmf ps' (qs pmf) name' of
                Inl e \<Rightarrow> Inl e
              | Inr new_pmf \<Rightarrow>
                  (case normalize_pmf new_pmf of
                     Inl e \<Rightarrow> Inl e
                   | Inr (total', new_pmf') \<Rightarrow> Inr new_pmf'))"

subsection \<open>The same functions on a store of objects\<close>

text \<open>
  \<open>normalize\<close> changes its object in place, so whether \<open>bias\<close> changes its argument
  depends on which object is normalized. A store is the list of the \<open>Pmf\<close> objects
  allocated so far; an object's address is its position. Python has no dangling
  references: every address passed to these functions is below the length of the store.
  Each function returns the store it leaves behind, also when it fails.
\<close>

type_synonym 'q store = "'q pmf list"

definition alloc :: "'q store \<Rightarrow> 'q pmf \<Rightarrow> nat \<times> 'q store" where
  "alloc s obj = (length s, s @ [obj])"

definition normalize_st :: "'q store \<Rightarrow> nat \<Rightarrow> 'q store \<times> (error + real)" where
  "normalize_st s a =
     (case normalize_pmf (s ! a) of
        Inl e \<Rightarrow> (s, Inl e)
      | Inr (total', pmf') \<Rightarrow> (s[a := pmf'], Inr total'))"

definition bias_st :: "real store \<Rightarrow> nat \<Rightarrow> string option \<Rightarrow> real store \<times> (error + nat)" where
  "bias_st s pmf name' =
     (let qs' = qs (s ! pmf);
          ps' = map2 (*) (ps (s ! pmf)) (qs (s ! pmf))
      in case Pmf ps' (qs (s ! pmf)) name' of
           Inl e \<Rightarrow> (s, Inl e)
         | Inr obj \<Rightarrow>
             (let (new_pmf, s1) = alloc s obj
              in case normalize_st s1 new_pmf of
                   (s2, Inl e) \<Rightarrow> (s2, Inl e)
                 | (s2, Inr total') \<Rightarrow> (s2, Inr new_pmf)))"

definition unbias_st :: "real store \<Rightarrow> nat \<Rightarrow> string option \<Rightarrow> real store \<times> (error + nat)" where
  "unbias_st s pmf name' =
     (if 0 \<in> set (qs (s ! pmf)) then (s, Inl ZeroQuantity)
      else let qs' = qs (s ! pmf);
               ps' = map2 (/) (ps (s ! pmf)) (qs (s ! pmf))
           in case Pmf ps' (qs (s ! pmf)) name' of
                Inl e \<Rightarrow> (s, Inl e)
              | Inr obj \<Rightarrow>
                  (let (new_pmf, s1) = alloc s obj
                   in case normalize_st s1 new_pmf of
                        (s2, Inl e) \<Rightarrow> (s2, Inl e)
                      | (s2, Inr total') \<Rightarrow> (s2, Inr new_pmf)))"

section \<open>Positional slices\<close>

text \<open>
  Python's slice \<open>xs[start:stop]\<close> with step 1, as used by \<open>hist[:n]\<close>, \<open>hist[-n:]\<close>,
  \<open>series.iloc[:-n]\<close> and \<open>series.iloc[-n:]\<close>. A bound that is left out is \<open>None\<close>. A
  negative bound counts from the end; every bound is clamped to the range of positions, so
  a slice never raises.
\<close>

definition slice_bound :: "nat \<Rightarrow> int \<Rightarrow> nat" where
  "slice_bound len i = (if i < 0 then nat (max (int len + i) 0) else min (nat i) len)"

definition slice :: "'a list \<Rightarrow> int option \<Rightarrow> int option \<Rightarrow> 'a list" where
  "slice xs start stop =
     (let lo = (case start of None \<Rightarrow> 0 | Some i \<Rightarrow> slice_bound (length xs) i);
          hi = (case stop of None \<Rightarrow> length xs | Some j \<Rightarrow> slice_bound (length xs) j)
      in take (hi - lo) (drop lo xs))"

text \<open>
  Slicing a table slices its rows and keeps its name.
\<close>

definition series_slice :: "('q, 'v) series \<Rightarrow> int option \<Rightarrow> int option \<Rightarrow> ('q, 'v) series" where
  "series_slice s start stop = s\<lparr>items := slice (items s) start stop\<rparr>"

section \<open>Time series: \<open>split_series\<close>\<close>

text \<open>
  \<^verbatim>\<open>
  def split_series(series, n=60):
      training = series.iloc[:-n]
      test = series.iloc[-n:]
      return training, test
  \<close>
  A time series is the list of its rows in order. The unary minus is Python's: \<open>-0\<close> is
  \<open>0\<close>, a bound that is not negative.
\<close>

definition split_series :: "'a list \<Rightarrow> int \<Rightarrow> 'a list \<times> 'a list" where
  "split_series series n =
     (let training = slice series None (Some (- n));
          test = slice series (Some (- n)) None
      in (training, test))"

section \<open>Outliers: \<open>smallest\<close> and \<open>largest\<close>\<close>

text \<open>
  \<^verbatim>\<open>
  def smallest(hist, n=10):
      return hist[:n]

  def largest(hist, n=10):
      return hist[-n:]
  \<close>
\<close>

definition smallest :: "'q hist \<Rightarrow> int \<Rightarrow> 'q hist" where
  "smallest hist n = series_slice hist None (Some n)"

definition largest :: "'q hist \<Rightarrow> int \<Rightarrow> 'q hist" where
  "largest hist n = series_slice hist (Some (- n)) None"

section \<open>Properties of slices\<close>

lemma slice_prefix: "0 \<le> n \<Longrightarrow> slice xs None (Some n) = take (nat n) xs"
  by (simp add: slice_def slice_bound_def min_def)

lemma slice_suffix: "1 \<le> n \<Longrightarrow> slice xs (Some (- n)) None = drop (length xs - nat n) xs"
  by (auto simp add: slice_def slice_bound_def max_def nat_diff_distrib' nat_int_add)

lemma slice_butlast_n: "1 \<le> n \<Longrightarrow> slice xs None (Some (- n)) = take (length xs - nat n) xs"
  by (auto simp add: slice_def slice_bound_def max_def nat_diff_distrib')

text \<open>
  Claim C10. For a series of length at least \<open>n\<close>, with \<open>n \<ge> 1\<close>,
  \<open>split_series(series, n)\<close> returns a pair (training, test) where test is the last
  \<open>n\<close> elements of the series in their order, training is all the elements before them
  in their order, and training followed by test is the series.
\<close>

theorem split_series_last_n:
  assumes "1 \<le> n" and "nat n \<le> length series"
    and "split_series series n = (training, test)"
  shows "test = drop (length series - nat n) series \<and> length test = nat n
       \<and> training = take (length series - nat n) series
       \<and> training @ test = series"
  using assms by (auto simp add: split_series_def Let_def slice_suffix slice_butlast_n)

text \<open>The split of a series of five rows with \<open>n = 2\<close>.\<close>

theorem split_series_last_n_witness:
  "(1::int) \<le> 2 \<and> nat 2 \<le> length [10, 20, 30, 40, 50 :: int]
   \<and> split_series [10, 20, 30, 40, 50 :: int] 2 = ([10, 20, 30], [40, 50])
   \<and> [40, 50] = drop (length [10, 20, 30, 40, 50 :: int] - nat 2) [10, 20, 30, 40, 50 :: int]
   \<and> length [40, 50 :: int] = nat 2
   \<and> [10, 20, 30] = take (length [10, 20, 30, 40, 50 :: int] - nat 2) [10, 20, 30, 40, 50 :: int]
   \<and> [10, 20, 30] @ [40, 50] = [10, 20, 30, 40, 50 :: int]"
proof -
  have s: "split_series [10, 20, 30, 40, 50 :: int] 2 = ([10, 20, 30], [40, 50])"
    by (simp add: split_series_def slice_def slice_bound_def)
  show ?thesis
    using split_series_last_n [of 2 "[10, 20, 30, 40, 50 :: int]" "[10, 20, 30]" "[40, 50]"] s
    by simp
qed

section \<open>Lookup in a table\<close>

lemma lookup_items_absent: "q \<notin> fst ` set xs \<Longrightarrow> lookup_items xs q = 0"
  by (induction xs) auto

lemma lookup_items_present:
  "distinct (map fst xs) \<Longrightarrow> (q, v) \<in> set xs \<Longrightarrow> lookup_items xs q = v"
  by (induction xs) (auto simp: rev_image_eqI)

lemma sorted_wrt_take_drop_less:
  assumes "sorted_wrt (<) xs" and "x \<in> set (take k xs)" and "y \<in> set (drop k xs)"
  shows "x < y"
proof -
  have "sorted_wrt (<) (take k xs @ drop k xs)"
    using assms(1) by simp
  then show ?thesis
    using assms(2,3) unfolding sorted_wrt_append by blast
qed

lemma set_minus_take:
  assumes "distinct xs"
  shows "set xs - set (take k xs) = set (drop k xs)"
proof -
  have "distinct (take k xs @ drop k xs)"
    using assms by simp
  then have "set (take k xs) \<inter> set (drop k xs) = {}"
    unfolding distinct_append by blast
  moreover have "set xs = set (take k xs) \<union> set (drop k xs)"
    by (metis append_take_drop_id set_append)
  ultimately show ?thesis by blast
qed

lemma set_minus_drop:
  assumes "distinct xs"
  shows "set xs - set (drop k xs) = set (take k xs)"
proof -
  have "distinct (take k xs @ drop k xs)"
    using assms by simp
  then have "set (take k xs) \<inter> set (drop k xs) = {}"
    unfolding distinct_append by blast
  moreover have "set xs = set (take k xs) \<union> set (drop k xs)"
    by (metis append_take_drop_id set_append)
  ultimately show ?thesis by blast
qed

lemma lookup_items_sub:
  assumes "distinct (map fst xs)" and "set ys \<subseteq> set xs" and "distinct (map fst ys)"
    and "q \<in> fst ` set ys"
  shows "lookup_items ys q = lookup_items xs q"
proof -
  from assms(4) obtain v where v: "(q, v) \<in> set ys" by auto
  then have "lookup_items ys q = v"
    using assms(3) by (simp add: lookup_items_present)
  moreover have "lookup_items xs q = v"
    using v assms(1,2) by (auto simp add: lookup_items_present)
  ultimately show ?thesis by simp
qed

lemma lookup_items_take:
  assumes "distinct (map fst xs)" and "q \<in> set (map fst (take k xs))"
  shows "lookup_items (take k xs) q = lookup_items xs q"
proof (rule lookup_items_sub)
  show "distinct (map fst xs)" by fact
  show "set (take k xs) \<subseteq> set xs" by (rule set_take_subset)
  show "distinct (map fst (take k xs))"
    using assms(1) by (metis distinct_take take_map)
  show "q \<in> fst ` set (take k xs)"
    using assms(2) by simp
qed

lemma lookup_items_drop:
  assumes "distinct (map fst xs)" and "q \<in> set (map fst (drop k xs))"
  shows "lookup_items (drop k xs) q = lookup_items xs q"
proof (rule lookup_items_sub)
  show "distinct (map fst xs)" by fact
  show "set (drop k xs) \<subseteq> set xs" by (rule set_drop_subset)
  show "distinct (map fst (drop k xs))"
    using assms(1) by (metis distinct_drop drop_map)
  show "q \<in> fst ` set (drop k xs)"
    using assms(2) by simp
qed

lemma strict_sorted_distinct: "sorted_wrt (<) (xs :: 'a::linorder list) \<Longrightarrow> distinct xs"
  using strict_sorted_iff by blast

text \<open>
  Claim C7, as amended. For a \<open>Hist\<close> whose quantities are in strictly ascending order
  and \<open>n \<ge> 0\<close>, \<open>smallest(hist, n)\<close> is the first \<open>n\<close> rows of the \<open>Hist\<close> (all of
  them when there are fewer): its quantities are in ascending order, each below every
  quantity left out, each with the count it has in \<open>hist\<close>. For \<open>n \<ge> 1\<close>,
  \<open>largest(hist, n)\<close> is the last \<open>n\<close> rows: its quantities are in ascending order too,
  each above every quantity left out, each with the count it has in \<open>hist\<close>.
\<close>

theorem smallest_largest_ascending:
  fixes hist :: "'q::linorder hist"
  assumes "sorted_wrt (<) (qs hist)" and "0 \<le> n"
  shows "items (smallest hist n) = take (nat n) (items hist)
       \<and> sorted_wrt (<) (qs (smallest hist n))
       \<and> (\<forall>q \<in> set (qs (smallest hist n)). lookup (smallest hist n) q = lookup hist q)
       \<and> (\<forall>q \<in> set (qs (smallest hist n)). \<forall>q' \<in> set (qs hist) - set (qs (smallest hist n)). q < q')
       \<and> (1 \<le> n \<longrightarrow>
            items (largest hist n) = drop (length (items hist) - nat n) (items hist)
          \<and> sorted_wrt (<) (qs (largest hist n))
          \<and> (\<forall>q \<in> set (qs (largest hist n)). lookup (largest hist n) q = lookup hist q)
          \<and> (\<forall>q \<in> set (qs (largest hist n)). \<forall>q' \<in> set (qs hist) - set (qs (largest hist n)). q' < q))"
proof -
  let ?xs = "items hist"
  let ?k = "length ?xs - nat n"
  have d: "distinct (map fst ?xs)"
    using assms(1) by (simp add: qs_def strict_sorted_distinct)
  have sm: "items (smallest hist n) = take (nat n) ?xs"
    using assms(2) by (simp add: smallest_def series_slice_def slice_prefix)
  have qsm: "qs (smallest hist n) = take (nat n) (qs hist)"
    by (simp add: qs_def sm take_map)
  have s1: "sorted_wrt (<) (qs (smallest hist n))"
    unfolding qsm using assms(1) by (rule sorted_wrt_take)
  have s2: "\<forall>q \<in> set (qs (smallest hist n)). lookup (smallest hist n) q = lookup hist q"
    using d by (simp add: lookup_def sm qs_def lookup_items_take)
  have s3: "\<forall>q \<in> set (qs (smallest hist n)). \<forall>q' \<in> set (qs hist) - set (qs (smallest hist n)). q < q'"
  proof (intro ballI)
    fix q q'
    assume q: "q \<in> set (qs (smallest hist n))"
      and q': "q' \<in> set (qs hist) - set (qs (smallest hist n))"
    have "distinct (qs hist)" using d by (simp add: qs_def)
    then have "q' \<in> set (drop (nat n) (qs hist))"
      using q' unfolding qsm by (simp only: set_minus_take)
    with q show "q < q'"
      unfolding qsm by (intro sorted_wrt_take_drop_less[OF assms(1)])
  qed
  have l: "1 \<le> n \<longrightarrow>
            items (largest hist n) = drop ?k ?xs
          \<and> sorted_wrt (<) (qs (largest hist n))
          \<and> (\<forall>q \<in> set (qs (largest hist n)). lookup (largest hist n) q = lookup hist q)
          \<and> (\<forall>q \<in> set (qs (largest hist n)). \<forall>q' \<in> set (qs hist) - set (qs (largest hist n)). q' < q)"
  proof
    assume n: "1 \<le> n"
    have la: "items (largest hist n) = drop ?k ?xs"
      using n by (simp add: largest_def series_slice_def slice_suffix)
    have qla: "qs (largest hist n) = drop ?k (qs hist)"
      by (simp add: qs_def la drop_map)
    have l1: "sorted_wrt (<) (qs (largest hist n))"
      unfolding qla using assms(1) by (rule sorted_wrt_drop)
    have l2: "\<forall>q \<in> set (qs (largest hist n)). lookup (largest hist n) q = lookup hist q"
      using d by (simp add: lookup_def la qs_def lookup_items_drop)
    have l3: "\<forall>q \<in> set (qs (largest hist n)). \<forall>q' \<in> set (qs hist) - set (qs (largest hist n)). q' < q"
    proof (intro ballI)
      fix q q'
      assume q: "q \<in> set (qs (largest hist n))"
        and q': "q' \<in> set (qs hist) - set (qs (largest hist n))"
      have "distinct (qs hist)" using d by (simp add: qs_def)
      then have "q' \<in> set (take ?k (qs hist))"
        using q' unfolding qla by (simp only: set_minus_drop)
      with q show "q' < q"
        unfolding qla by (intro sorted_wrt_take_drop_less[OF assms(1)])
    qed
    show "items (largest hist n) = drop ?k ?xs
          \<and> sorted_wrt (<) (qs (largest hist n))
          \<and> (\<forall>q \<in> set (qs (largest hist n)). lookup (largest hist n) q = lookup hist q)
          \<and> (\<forall>q \<in> set (qs (largest hist n)). \<forall>q' \<in> set (qs hist) - set (qs (largest hist n)). q' < q)"
      using la l1 l2 l3 by blast
  qed
  show ?thesis
    using sm s1 s2 s3 l by blast
qed


text \<open>
  Claim C7 as stated asks for the rows of \<open>largest\<close> in descending order of quantity.
  The slice \<open>hist[-n:]\<close> keeps the order of the table: the two largest quantities of a
  table with quantities 1, 2, 3 come back as 2, 3.
\<close>

theorem largest_descending_counterexample:
  "qs (largest (\<lparr>items = [(1, 4), (2, 1), (3, 2)], name = None\<rparr> :: int hist) 2) = [2, 3]
   \<and> \<not> sorted_wrt (>) (qs (largest (\<lparr>items = [(1, 4), (2, 1), (3, 2)], name = None\<rparr> :: int hist) 2))"
  by (simp add: largest_def series_slice_def slice_def slice_bound_def qs_def)

text \<open>
  With \<open>n = 0\<close> the slice \<open>hist[-0:]\<close> is \<open>hist[0:]\<close>, the whole table.
\<close>

lemma largest_zero_whole:
  "largest (\<lparr>items = [(1, 4), (2, 1), (3, 2)], name = None\<rparr> :: int hist) 0
     = \<lparr>items = [(1, 4), (2, 1), (3, 2)], name = None\<rparr>"
  by (simp add: largest_def series_slice_def slice_def slice_bound_def)

text \<open>The two smallest and the two largest quantities of a table of three rows.\<close>

theorem smallest_largest_ascending_witness:
  "sorted_wrt (<) (qs (\<lparr>items = [(1, 4), (2, 1), (3, 2)], name = None\<rparr> :: int hist))
   \<and> (0::int) \<le> 2 \<and> (1::int) \<le> 2
   \<and> items (smallest (\<lparr>items = [(1, 4), (2, 1), (3, 2)], name = None\<rparr> :: int hist) 2) = [(1, 4), (2, 1)]
   \<and> items (largest (\<lparr>items = [(1, 4), (2, 1), (3, 2)], name = None\<rparr> :: int hist) 2) = [(2, 1), (3, 2)]"
proof -
  let ?h = "\<lparr>items = [(1, 4), (2, 1), (3, 2)], name = None\<rparr> :: int hist"
  have a: "sorted_wrt (<) (qs ?h)" by (simp add: qs_def)
  have b: "(0::int) \<le> 2" by simp
  from smallest_largest_ascending [OF a b]
  have "items (smallest ?h 2) = take (nat 2) (items ?h)"
    and "1 \<le> (2::int) \<longrightarrow> items (largest ?h 2) = drop (length (items ?h) - nat 2) (items ?h)"
    by blast+
  then show ?thesis
    using a by simp
qed

section \<open>Lookup, tallies and normalization\<close>

text \<open>
  Claim C4. Looking up a quantity in a \<open>Hist\<close> returns 0 when the quantity is absent
  and the count of the quantity when it is present (the quantities of the table being
  distinct); looking up an absent quantity in a \<open>Pmf\<close> returns the mass 0. The lookup
  is a total function: there is no not-found failure among its results.
\<close>

theorem lookup_absent_zero:
  fixes hist :: "'q hist" and pmf :: "'q pmf"
  shows "(q \<notin> set (qs hist) \<longrightarrow> lookup hist q = 0)
       \<and> (distinct (qs hist) \<and> (q, c) \<in> set (items hist) \<longrightarrow> lookup hist q = c)
       \<and> (q \<notin> set (qs pmf) \<longrightarrow> lookup pmf q = 0)"
  by (simp add: lookup_def qs_def lookup_items_absent lookup_items_present)

text \<open>
  The tally of the sequence 1, 2, 2, 3, 5 and its \<open>Pmf\<close>, looked up at the absent
  quantities 4 and 99 and at the present quantity 2.
\<close>

theorem lookup_absent_zero_witness:
  "(4::int) \<notin> set (qs (\<lparr>items = [(1, 1), (2, 2), (3, 1), (5, 1)], name = None\<rparr> :: int hist))
   \<and> lookup (\<lparr>items = [(1, 1), (2, 2), (3, 1), (5, 1)], name = None\<rparr> :: int hist) 4 = 0
   \<and> distinct (qs (\<lparr>items = [(1, 1), (2, 2), (3, 1), (5, 1)], name = None\<rparr> :: int hist))
   \<and> lookup (\<lparr>items = [(1, 1), (2, 2), (3, 1), (5, 1)], name = None\<rparr> :: int hist) 2 = 2
   \<and> (99::int) \<notin> set (qs (\<lparr>items = [(1, 1/5), (2, 2/5), (3, 1/5), (5, 1/5)], name = None\<rparr> :: int pmf))
   \<and> lookup (\<lparr>items = [(1, 1/5), (2, 2/5), (3, 1/5), (5, 1/5)], name = None\<rparr> :: int pmf) 99 = 0"
proof -
  let ?h = "\<lparr>items = [(1, 1), (2, 2), (3, 1), (5, 1)], name = None\<rparr> :: int hist"
  let ?p = "\<lparr>items = [(1, 1/5), (2, 2/5), (3, 1/5), (5, 1/5)], name = None\<rparr> :: int pmf"
  have a: "(4::int) \<notin> set (qs ?h)" and b: "distinct (qs ?h)" and c: "(99::int) \<notin> set (qs ?p)"
    and d: "(2, 2) \<in> set (items ?h)"
    by (simp_all add: qs_def)
  from lookup_absent_zero [of 4 ?h 0 ?p] a have "lookup ?h 4 = 0" by blast
  moreover from lookup_absent_zero [of 2 ?h 2 ?p] b d have "lookup ?h 2 = 2" by blast
  moreover from lookup_absent_zero [of 99 ?h 0 ?p] c have "lookup ?p 99 = 0" by blast
  ultimately show ?thesis using a b c by blast
qed

lemma sum_list_count_remdups:
  "(\<Sum>q\<leftarrow>sort (remdups xs). int (count_list xs q)) = int (length xs)"
proof -
  have "(\<Sum>q\<leftarrow>sort (remdups xs). int (count_list xs q))
          = (\<Sum>q\<in>set (sort (remdups xs)). int (count_list xs q))"
    by (rule sum_list_distinct_conv_sum_set) simp
  also have "\<dots> = int (\<Sum>q\<in>set xs. count_list xs q)"
    by simp
  also have "\<dots> = int (length xs)"
    by (simp add: sum_count_set)
  finally show ?thesis .
qed

lemma ps_Hist_from_seq:
  "ps (Hist_from_seq values name') = map (\<lambda>q. int (count_list values q)) (sort (remdups values))"
  by (simp add: ps_def Hist_from_seq_def comp_def)

lemma qs_Hist_from_seq: "qs (Hist_from_seq values name') = sort (remdups values)"
  by (simp add: qs_def Hist_from_seq_def comp_def)

text \<open>
  A table built by \<open>from_seq\<close> has its quantities in strictly ascending order and
  counts that are positive.
\<close>

lemma Hist_from_seq_ascending: "sorted_wrt (<) (qs (Hist_from_seq values name'))"
  by (simp add: qs_Hist_from_seq strict_sorted_iff)

lemma Hist_from_seq_counts_pos: "\<forall>c\<in>set (ps (Hist_from_seq values name')). 0 < c"
  using count_list_0_iff [of "values"]
  by (auto simp add: ps_Hist_from_seq neq0_conv [symmetric] simp del: neq0_conv)

text \<open>
  Claim C5. The \<open>Hist\<close> built from a sequence \<open>S\<close> by \<open>from_seq\<close> has a sum of counts
  equal to the length of \<open>S\<close>, for every finite sequence, the empty one included.
\<close>

theorem Hist_from_seq_sum:
  "series_sum (Hist_from_seq S name') = int (length S)"
  by (simp add: series_sum_def ps_Hist_from_seq sum_list_count_remdups)

text \<open>The tally of the notebook's sequence 1, 2, 2, 3, 5.\<close>

theorem Hist_from_seq_sum_witness:
  "series_sum (Hist_from_seq [1, 2, 2, 3, 5 :: int] None) = int (length [1, 2, 2, 3, 5 :: int])
   \<and> items (Hist_from_seq [1, 2, 2, 3, 5 :: int] None) = [(1, 1), (2, 2), (3, 1), (5, 1)]"
  using Hist_from_seq_sum [of "[1, 2, 2, 3, 5 :: int]" None]
  by (simp add: Hist_from_seq_def)

lemma lookup_items_tally:
  "distinct ks \<Longrightarrow> lookup_items (map (\<lambda>q. (q, f q)) ks) q = (if q \<in> set ks then f q else 0)"
  by (induction ks) auto

lemma lookup_Hist_from_seq:
  "lookup (Hist_from_seq values name') q = int (count_list values q)"
  by (simp add: lookup_def Hist_from_seq_def lookup_items_tally)

lemma lookup_items_map_value:
  "f 0 = 0 \<Longrightarrow> lookup_items (map (\<lambda>(q, c). (q, f c)) xs) q = f (lookup_items xs q)"
  by (induction xs) auto

lemma sum_list_of_int: "(\<Sum>c\<leftarrow>cs. real_of_int c) = real_of_int (sum_list cs)"
  by (induction cs) simp_all

lemma sum_list_divide:
  "(\<Sum>x\<leftarrow>xs. f x / (c::real)) = (\<Sum>x\<leftarrow>xs. f x) / c"
  by (induction xs) (simp_all add: add_divide_distrib)


lemma Pmf_of_hist_props:
  assumes "series_sum hist \<noteq> 0"
  shows "\<exists>pmf. Pmf_of_hist hist = Inr pmf
           \<and> qs pmf = qs hist
           \<and> (\<forall>q. lookup pmf q = real_of_int (lookup hist q) / real_of_int (series_sum hist))
           \<and> series_sum pmf = 1"
proof -
  let ?n = "series_sum hist"
  let ?pmf = "\<lparr>items = map (\<lambda>(q, c). (q, real_of_int c / real_of_int ?n)) (items hist),
               name = name hist\<rparr>"
  have 1: "Pmf_of_hist hist = Inr ?pmf"
    using assms by (simp add: Pmf_of_hist_def Let_def)
  have 2: "qs ?pmf = qs hist"
    by (simp add: qs_def comp_def case_prod_unfold)
  have 3: "lookup ?pmf q = real_of_int (lookup hist q) / real_of_int ?n" for q
    by (simp add: lookup_def lookup_items_map_value)
  have "ps ?pmf = map (\<lambda>c. real_of_int c / real_of_int ?n) (ps hist)"
    by (simp add: ps_def comp_def case_prod_unfold)
  then have "series_sum ?pmf = (\<Sum>c\<leftarrow>ps hist. real_of_int c) / real_of_int ?n"
    by (simp add: series_sum_def sum_list_divide)
  also have "(\<Sum>c\<leftarrow>ps hist. real_of_int c) = real_of_int ?n"
    by (simp add: series_sum_def sum_list_of_int)
  finally have 4: "series_sum ?pmf = 1"
    using assms by simp
  show ?thesis
    using 1 2 3 4 by blast
qed

text \<open>
  Claim C6. For a non-empty sequence \<open>S\<close>, \<open>Pmf.from_seq\<close> returns a \<open>Pmf\<close> that gives
  each quantity the mass count / len(S), and its masses sum to 1 (exactly, the masses
  being real numbers).
\<close>

theorem Pmf_from_seq_masses:
  assumes "S \<noteq> []"
  shows "\<exists>pmf. Pmf_from_seq S name' = Inr pmf
           \<and> (\<forall>q. lookup pmf q = real (count_list S q) / real (length S))
           \<and> series_sum pmf = 1"
proof -
  have "series_sum (Hist_from_seq S name') \<noteq> 0"
    using assms by (simp add: series_sum_def ps_Hist_from_seq sum_list_count_remdups)
  from Pmf_of_hist_props [OF this] obtain pmf
    where "Pmf_of_hist (Hist_from_seq S name') = Inr pmf"
      and "\<forall>q. lookup pmf q = real_of_int (lookup (Hist_from_seq S name') q)
                 / real_of_int (series_sum (Hist_from_seq S name'))"
      and "series_sum pmf = 1"
    by blast
  then show ?thesis
    by (simp add: Pmf_from_seq_def lookup_Hist_from_seq series_sum_def ps_Hist_from_seq
        sum_list_count_remdups)
qed

text \<open>The masses 0.4, 0.2 and 0.0 of the specification's example.\<close>

theorem Pmf_from_seq_masses_witness:
  "[1, 2, 2, 3, 5 :: int] \<noteq> []
   \<and> (\<exists>pmf. Pmf_from_seq [1, 2, 2, 3, 5 :: int] None = Inr pmf
          \<and> lookup pmf 2 = 2/5 \<and> lookup pmf 1 = 1/5 \<and> lookup pmf 99 = 0
          \<and> series_sum pmf = 1)"
proof -
  have a: "[1, 2, 2, 3, 5 :: int] \<noteq> []" by simp
  from Pmf_from_seq_masses [OF a, of None] obtain pmf
    where 1: "Pmf_from_seq [1, 2, 2, 3, 5 :: int] None = Inr pmf"
      and 2: "\<forall>q. lookup pmf q = real (count_list [1, 2, 2, 3, 5 :: int] q) / real (length [1, 2, 2, 3, 5 :: int])"
      and 3: "series_sum pmf = 1"
    by blast
  have "lookup pmf 2 = 2/5" and "lookup pmf 1 = 1/5" and "lookup pmf 99 = 0"
    using 2 [rule_format, of 2] 2 [rule_format, of 1] 2 [rule_format, of 99]
    by simp_all
  with 1 3 a show ?thesis by blast
qed

text \<open>
  Claim C3. When the masses of a \<open>Pmf\<close> sum to a nonzero value, \<open>normalize\<close> returns
  that sum and leaves every mass divided by it, the quantities as they were and the
  masses summing to 1. When the sum is exactly zero the call fails with \<open>ZeroTotal\<close>:
  it does not return a table.
\<close>

theorem normalize_pmf_sum:
  "(series_sum pmf \<noteq> 0 \<longrightarrow>
      (\<exists>pmf'. normalize_pmf pmf = Inr (series_sum pmf, pmf')
         \<and> qs pmf' = qs pmf
         \<and> ps pmf' = map (\<lambda>p. p / series_sum pmf) (ps pmf)
         \<and> series_sum pmf' = 1))
   \<and> (series_sum pmf = 0 \<longrightarrow> normalize_pmf pmf = Inl ZeroTotal)"
proof (intro conjI impI)
  assume nz: "series_sum pmf \<noteq> 0"
  let ?t = "series_sum pmf"
  let ?pmf' = "pmf\<lparr>items := map (\<lambda>(q, p). (q, p / ?t)) (items pmf)\<rparr>"
  have 1: "normalize_pmf pmf = Inr (?t, ?pmf')"
    using nz by (simp add: normalize_pmf_def Let_def)
  have 2: "qs ?pmf' = qs pmf"
    by (simp add: qs_def comp_def case_prod_unfold)
  have 3: "ps ?pmf' = map (\<lambda>p. p / ?t) (ps pmf)"
    by (simp add: ps_def comp_def case_prod_unfold)
  have "series_sum ?pmf' = sum_list (map (\<lambda>p. p / ?t) (ps pmf))"
    by (subst series_sum_def) (simp only: 3)
  also have "\<dots> = sum_list (ps pmf) / ?t"
    using sum_list_divide [of "\<lambda>p. p" ?t "ps pmf"] by simp
  finally have 4: "series_sum ?pmf' = 1"
    using nz by (simp add: series_sum_def)
  show "\<exists>pmf'. normalize_pmf pmf = Inr (series_sum pmf, pmf')
         \<and> qs pmf' = qs pmf
         \<and> ps pmf' = map (\<lambda>p. p / series_sum pmf) (ps pmf)
         \<and> series_sum pmf' = 1"
    using 1 2 3 4 by blast
next
  assume "series_sum pmf = 0"
  then show "normalize_pmf pmf = Inl ZeroTotal"
    by (simp add: normalize_pmf_def)
qed


text \<open>
  The first three class sizes of the notebook with their counts 8, 8, 14, and a table
  whose masses are all zero.
\<close>

theorem normalize_pmf_sum_witness:
  "series_sum (\<lparr>items = [(7, 8), (12, 8), (17, 14)], name = None\<rparr> :: int pmf) \<noteq> 0
   \<and> normalize_pmf (\<lparr>items = [(7, 8), (12, 8), (17, 14)], name = None\<rparr> :: int pmf)
       = Inr (30, \<lparr>items = [(7, 4/15), (12, 4/15), (17, 7/15)], name = None\<rparr>)
   \<and> series_sum (\<lparr>items = [(7, 0), (12, 0)], name = None\<rparr> :: int pmf) = 0
   \<and> normalize_pmf (\<lparr>items = [(7, 0), (12, 0)], name = None\<rparr> :: int pmf) = Inl ZeroTotal"
proof -
  let ?p = "\<lparr>items = [(7, 8), (12, 8), (17, 14)], name = None\<rparr> :: int pmf"
  let ?z = "\<lparr>items = [(7, 0), (12, 0)], name = None\<rparr> :: int pmf"
  have a: "series_sum ?p \<noteq> 0" and b: "series_sum ?z = 0"
    by (simp_all add: series_sum_def ps_def)
  from normalize_pmf_sum [of ?z] b have z: "normalize_pmf ?z = Inl ZeroTotal"
    by blast
  have "normalize_pmf ?p = Inr (30, \<lparr>items = [(7, 4/15), (12, 4/15), (17, 7/15)], name = None\<rparr>)"
    by (simp add: normalize_pmf_def series_sum_def ps_def)
  with a b z show ?thesis by blast
qed

section \<open>The mode\<close>

lemma idxmax_from_first_max:
  fixes bq :: "'q::linorder" and bv :: "'v::linorder"
  assumes "sorted_wrt (<) (bq # map fst rest)"
  shows "\<exists>m. (idxmax_from bq bv rest, m) \<in> set ((bq, bv) # rest)
           \<and> (\<forall>(q, v) \<in> set ((bq, bv) # rest). v \<le> m \<and> (v = m \<longrightarrow> idxmax_from bq bv rest \<le> q))"
  using assms
proof (induction rest arbitrary: bq bv)
  case Nil
  then show ?case by simp
next
  case (Cons x rest)
  obtain q v where x: "x = (q, v)" by (cases x)
  show ?case
  proof (cases "bv < v")
    case True
    have "sorted_wrt (<) (q # map fst rest)"
      using Cons.prems x by simp
    from Cons.IH [OF this, of v] obtain m
      where m: "(idxmax_from q v rest, m) \<in> set ((q, v) # rest)"
        and mx: "\<forall>(q', v') \<in> set ((q, v) # rest). v' \<le> m \<and> (v' = m \<longrightarrow> idxmax_from q v rest \<le> q')"
      by blast
    from mx have "v \<le> m" by auto
    with True have "bv < m" by simp
    with m mx True x show ?thesis
      by (intro exI[of _ m]) auto
  next
    case False
    have "sorted_wrt (<) (bq # map fst rest)"
      using Cons.prems x by simp
    from Cons.IH [OF this, of bv] obtain m
      where m: "(idxmax_from bq bv rest, m) \<in> set ((bq, bv) # rest)"
        and mx: "\<forall>(q', v') \<in> set ((bq, bv) # rest). v' \<le> m \<and> (v' = m \<longrightarrow> idxmax_from bq bv rest \<le> q')"
      by blast
    from mx have b: "bv \<le> m" and t: "bv = m \<longrightarrow> idxmax_from bq bv rest \<le> bq" by auto
    have lt: "bq < q" using Cons.prems x by simp
    have "v \<le> m" using False b by simp
    moreover have "v = m \<longrightarrow> idxmax_from bq bv rest \<le> q"
      using False b t lt by auto
    ultimately show ?thesis
      using m mx False x by (intro exI[of _ m]) auto
  qed
qed

lemma mode_first_max:
  fixes s :: "('q::linorder, 'v::linorder) series"
  assumes "items s \<noteq> []" and "sorted_wrt (<) (qs s)"
  shows "\<exists>q m. mode s = Inr q \<and> (q, m) \<in> set (items s)
           \<and> (\<forall>(q', v) \<in> set (items s). v \<le> m \<and> (v = m \<longrightarrow> q \<le> q'))"
proof -
  from assms(1) obtain bq bv rest where xs: "items s = (bq, bv) # rest"
    by (cases "items s") auto
  have "sorted_wrt (<) (bq # map fst rest)"
    using assms(2) xs by (simp add: qs_def)
  from idxmax_from_first_max [OF this, of bv] show ?thesis
    unfolding mode_def idxmax_def xs by simp
qed

lemma idxmax_from_map_mono:
  assumes "strict_mono f"
  shows "idxmax_from bq (f bv) (map (\<lambda>(q, c). (q, f c)) rest) = idxmax_from bq bv rest"
  by (induction rest arbitrary: bq bv) (auto simp add: strict_mono_less [OF assms])

lemma sum_list_nonneg_int: "\<forall>c\<in>set cs. (0::int) \<le> c \<Longrightarrow> 0 \<le> sum_list cs"
  by (induction cs) auto

lemma mode_Pmf_of_hist:
  fixes hist :: "'q hist"
  assumes "\<forall>c\<in>set (ps hist). 0 \<le> c" and "Pmf_of_hist hist = Inr pmf"
  shows "mode pmf = mode hist"
proof -
  let ?n = "series_sum hist"
  let ?f = "\<lambda>c. real_of_int c / real_of_int ?n"
  have "?n \<noteq> 0"
    using assms(2) by (auto simp add: Pmf_of_hist_def Let_def split: if_splits)
  moreover have "0 \<le> ?n"
    using assms(1) by (simp add: series_sum_def sum_list_nonneg_int)
  ultimately have pos: "0 < ?n" by simp
  have mono: "strict_mono ?f"
    using pos by (simp add: strict_mono_def divide_strict_right_mono)
  have it: "items pmf = map (\<lambda>(q, c). (q, ?f c)) (items hist)"
    using assms(2) by (auto simp add: Pmf_of_hist_def Let_def split: if_splits)
  show ?thesis
  proof (cases "items hist")
    case Nil
    then show ?thesis by (simp add: mode_def idxmax_def it)
  next
    case (Cons x rest)
    obtain bq bv where "x = (bq, bv)" by (cases x)
    with Cons show ?thesis
      using idxmax_from_map_mono [OF mono, of bq bv rest]
      by (simp add: mode_def idxmax_def it)
  qed
qed

text \<open>
  Claim C8, as amended. For a non-empty \<open>Hist\<close> and a non-empty \<open>Pmf\<close> whose
  quantities are in strictly ascending order, \<open>mode\<close> returns a quantity that holds the maximum count
  (the maximum mass), and among the quantities that hold the maximum it is the smallest.
  The counts of a \<open>Hist\<close> being non-negative, the mode of the \<open>Pmf\<close> derived from the
  \<open>Hist\<close> is the mode of the \<open>Hist\<close>.
\<close>

theorem mode_max_least:
  fixes hist :: "'q::linorder hist" and pmf :: "'q pmf"
  assumes "items hist \<noteq> []" and "sorted_wrt (<) (qs hist)" and "\<forall>c\<in>set (ps hist). 0 \<le> c"
    and "items pmf \<noteq> []" and "sorted_wrt (<) (qs pmf)"
  shows "(\<exists>q m. mode hist = Inr q \<and> (q, m) \<in> set (items hist)
            \<and> (\<forall>(q', c) \<in> set (items hist). c \<le> m \<and> (c = m \<longrightarrow> q \<le> q')))
       \<and> (\<exists>q m. mode pmf = Inr q \<and> (q, m) \<in> set (items pmf)
            \<and> (\<forall>(q', p) \<in> set (items pmf). p \<le> m \<and> (p = m \<longrightarrow> q \<le> q')))
       \<and> (\<forall>pmf'. Pmf_of_hist hist = Inr pmf' \<longrightarrow> mode pmf' = mode hist)"
  using mode_first_max [OF assms(1,2)] mode_first_max [OF assms(4,5)]
    mode_Pmf_of_hist [OF assms(3)]
  by blast

text \<open>
  Claim C8 as stated covers every non-empty \<open>Hist\<close> and \<open>Pmf\<close>. The mode is the first
  row that holds the maximum, which is the smallest of the tied quantities only when the
  rows are in ascending order of quantity. A table need not be: \<open>Pmf(ps, qs)\<close> keeps
  the order of the columns it is given. With the masses 1/2 and 1/2 at the quantities 3
  and 1, in this order, the mode is 3, while the smallest quantity holding the maximum
  mass is 1; likewise for a \<open>Hist\<close> with the counts 2 and 2 at 3 and 1.
\<close>

theorem mode_unsorted_counterexample:
  "Pmf [1/2, 1/2] [3, 1 :: int] None = Inr \<lparr>items = [(3, 1/2), (1, 1/2)], name = None\<rparr>
   \<and> mode (\<lparr>items = [(3, 1/2), (1, 1/2)], name = None\<rparr> :: int pmf) = Inr 3
   \<and> lookup (\<lparr>items = [(3, 1/2), (1, 1/2)], name = None\<rparr> :: int pmf) 3 = 1/2
   \<and> lookup (\<lparr>items = [(3, 1/2), (1, 1/2)], name = None\<rparr> :: int pmf) 1 = 1/2
   \<and> mode (\<lparr>items = [(3, 2), (1, 2)], name = None\<rparr> :: int hist) = Inr 3
   \<and> lookup (\<lparr>items = [(3, 2), (1, 2)], name = None\<rparr> :: int hist) 3 = 2
   \<and> lookup (\<lparr>items = [(3, 2), (1, 2)], name = None\<rparr> :: int hist) 1 = 2
   \<and> (1::int) < 3"
  by (simp add: Pmf_def mode_def idxmax_def lookup_def)

text \<open>
  A \<open>Hist\<close> in which the quantities 2 and 3 tie for the maximum count, and the \<open>Pmf\<close>
  derived from it: both have mode 2.
\<close>

theorem mode_max_least_witness:
  "items (\<lparr>items = [(1, 1), (2, 2), (3, 2), (5, 1)], name = None\<rparr> :: int hist) \<noteq> []
   \<and> sorted_wrt (<) (qs (\<lparr>items = [(1, 1), (2, 2), (3, 2), (5, 1)], name = None\<rparr> :: int hist))
   \<and> ps (\<lparr>items = [(1, 1), (2, 2), (3, 2), (5, 1)], name = None\<rparr> :: int hist) = [1, 2, 2, 1]
   \<and> mode (\<lparr>items = [(1, 1), (2, 2), (3, 2), (5, 1)], name = None\<rparr> :: int hist) = Inr 2
   \<and> Pmf_of_hist (\<lparr>items = [(1, 1), (2, 2), (3, 2), (5, 1)], name = None\<rparr> :: int hist)
       = Inr \<lparr>items = [(1, 1/6), (2, 1/3), (3, 1/3), (5, 1/6)], name = None\<rparr>
   \<and> mode (\<lparr>items = [(1, 1/6), (2, 1/3), (3, 1/3), (5, 1/6)], name = None\<rparr> :: int pmf) = Inr 2"
proof -
  let ?h = "\<lparr>items = [(1, 1), (2, 2), (3, 2), (5, 1)], name = None\<rparr> :: int hist"
  let ?p = "\<lparr>items = [(1, 1/6), (2, 1/3), (3, 1/3), (5, 1/6)], name = None\<rparr> :: int pmf"
  have a: "items ?h \<noteq> []" and b: "sorted_wrt (<) (qs ?h)" and c: "\<forall>c\<in>set (ps ?h). 0 \<le> c"
    and d: "items ?p \<noteq> []" and e: "sorted_wrt (<) (qs ?p)"
    by (simp_all add: qs_def ps_def)
  have f: "Pmf_of_hist ?h = Inr ?p"
    by (simp add: Pmf_of_hist_def series_sum_def ps_def)
  have g: "mode ?h = Inr 2"
    by (simp add: mode_def idxmax_def)
  from mode_max_least [OF a b c d e] f have "mode ?p = mode ?h"
    by blast
  moreover have "ps ?h = [1, 2, 2, 1]"
    by (simp add: ps_def)
  ultimately show ?thesis using a b f g by simp
qed

section \<open>The reweighting transforms\<close>

text \<open>
  What \<open>bias\<close> and \<open>unbias\<close> compute, row by row: the constructor never fails on
  columns read from one table, and the normalization divides the reweighted masses by
  their sum.
\<close>

lemma map2_snd_fst:
  "map2 f (map snd xs) (map fst xs) = map (\<lambda>(q, p). f p q) xs"
  by (induction xs) auto

lemma zip_fst_map:
  "zip (map fst xs) (map (\<lambda>(q, p). g q p) xs) = map (\<lambda>(q, p). (q, g q p)) xs"
  by (induction xs) auto

lemma map_snd_map: "map snd (map (\<lambda>(q, p). (q, g q p)) xs) = map (\<lambda>(q, p). g q p) xs"
  by (induction xs) auto

lemma map_rescale:
  "map (\<lambda>(q, p). (q, p / t)) (map (\<lambda>(q, p). (q, g q p)) xs) = map (\<lambda>(q, p). (q, g q p / t)) xs"
  by (induction xs) auto

lemma Pmf_reweighted:
  "Pmf (map2 f (ps pmf) (qs pmf)) (qs pmf) name'
     = Inr \<lparr>items = map (\<lambda>(q, p). (q, f p q)) (items pmf), name = name'\<rparr>"
  by (simp add: Pmf_def qs_def ps_def map2_snd_fst zip_fst_map)

lemma normalize_reweighted:
  "normalize_pmf \<lparr>items = map (\<lambda>(q, p). (q, g q p)) xs, name = name'\<rparr> =
     (let t = (\<Sum>(q, p)\<leftarrow>xs. g q p)
      in if t = 0 then Inl ZeroTotal
         else Inr (t, \<lparr>items = map (\<lambda>(q, p). (q, g q p / t)) xs, name = name'\<rparr>))"
  unfolding normalize_pmf_def series_sum_def ps_def
  by (simp add: map_snd_map map_rescale Let_def del: map_map)

lemma bias_eq:
  "bias pmf name' =
     (let t = (\<Sum>(q, p)\<leftarrow>items pmf. p * q)
      in if t = 0 then Inl ZeroTotal
         else Inr \<lparr>items = map (\<lambda>(q, p). (q, p * q / t)) (items pmf), name = name'\<rparr>)"
  by (simp add: bias_def Pmf_reweighted normalize_reweighted Let_def)

lemma unbias_eq:
  "unbias pmf name' =
     (if 0 \<in> set (qs pmf) then Inl ZeroQuantity
      else let t = (\<Sum>(q, p)\<leftarrow>items pmf. p / q)
           in if t = 0 then Inl ZeroTotal
              else Inr \<lparr>items = map (\<lambda>(q, p). (q, p / q / t)) (items pmf), name = name'\<rparr>)"
  by (simp add: unbias_def Pmf_reweighted normalize_reweighted Let_def)

lemma mean_eq: "mean pmf = (\<Sum>(q, p)\<leftarrow>items pmf. p * q)"
  by (simp add: mean_def qs_def ps_def map2_snd_fst)

lemma sum_list_pos_real:
  fixes f :: "'a \<Rightarrow> real"
  assumes "\<forall>x\<in>set xs. 0 \<le> f x" and "\<exists>x\<in>set xs. 0 < f x"
  shows "0 < sum_list (map f xs)"
  using assms
proof (induction xs)
  case Nil
  then show ?case by simp
next
  case (Cons a xs)
  have nn: "0 \<le> sum_list (map f xs)"
    using Cons.prems(1) by (auto intro!: sum_list_nonneg)
  show ?case
  proof (cases "0 < f a")
    case True
    with nn show ?thesis by simp
  next
    case False
    with Cons.prems have "\<exists>x\<in>set xs. 0 < f x" by auto
    with Cons have "0 < sum_list (map f xs)" by simp
    moreover have "0 \<le> f a" using Cons.prems(1) by simp
    ultimately show ?thesis by simp
  qed
qed

lemma sum_list_all_zero: "\<forall>p\<in>set xs. p = (0::real) \<Longrightarrow> sum_list xs = 0"
  by (induction xs) auto

lemma item_parts:
  "(q, p) \<in> set (items pmf) \<Longrightarrow> q \<in> set (qs pmf) \<and> p \<in> set (ps pmf)"
  by (force simp add: qs_def ps_def)

lemma normalized_has_mass:
  assumes "\<forall>p\<in>set (ps pmf). 0 \<le> p" and "series_sum pmf = (1::real)"
  shows "\<exists>(q, p)\<in>set (items pmf). 0 < p"
proof (rule ccontr)
  assume "\<not> (\<exists>(q, p)\<in>set (items pmf). 0 < p)"
  then have "\<forall>p\<in>set (ps pmf). p = 0"
    using assms(1) by (fastforce simp add: ps_def)
  then have "sum_list (ps pmf) = 0"
    by (rule sum_list_all_zero)
  with assms(2) show False
    by (simp add: series_sum_def)
qed

lemma biased_total_pos:
  fixes pmf :: "real pmf"
  assumes "\<forall>q\<in>set (qs pmf). 0 < q" and "\<forall>p\<in>set (ps pmf). 0 \<le> p" and "series_sum pmf = 1"
  shows "0 < (\<Sum>(q, p)\<leftarrow>items pmf. p * q)"
proof -
  have "0 \<le> p * q" if "(q, p) \<in> set (items pmf)" for q p
    using item_parts [OF that] assms(1,2) by (simp add: less_imp_le)
  then have 1: "\<forall>x\<in>set (items pmf). 0 \<le> (case x of (q, p) \<Rightarrow> p * q)"
    by auto
  from normalized_has_mass [OF assms(2,3)] obtain q p
    where m: "(q, p) \<in> set (items pmf)" and p: "0 < p" by blast
  from item_parts [OF m] assms(1) have "0 < q" by simp
  with m p have 2: "\<exists>x\<in>set (items pmf). 0 < (case x of (q, p) \<Rightarrow> p * q)"
    by (intro bexI[of _ "(q, p)"]) simp_all
  from sum_list_pos_real [of "items pmf" "\<lambda>(q, p). p * q", OF 1 2] show ?thesis .
qed


lemma map_items_compose:
  "map (\<lambda>(q, p). h q p) (map (\<lambda>(q, p). (q, g q p)) xs) = map (\<lambda>(q, p). h q (g q p)) xs"
  by (induction xs) auto

lemma map_items_cong:
  "(\<And>q p. (q, p) \<in> set xs \<Longrightarrow> f q p = g q p)
     \<Longrightarrow> map (\<lambda>(q, p). f q p) xs = map (\<lambda>(q, p). g q p) xs"
  by (induction xs) auto

lemma map_items_id: "map (\<lambda>(q, p). (q, p)) xs = xs"
  by (induction xs) auto

lemma map_fst_reweighted: "map fst (map (\<lambda>(q, p). (q, g q p)) xs) = map fst xs"
  by (induction xs) auto

lemma sum_items_divide:
  "(\<Sum>(q, p)\<leftarrow>xs. p / (c::real)) = sum_list (map snd xs) / c"
  by (induction xs) (auto simp add: add_divide_distrib)

lemma unbias_bias_items:
  fixes pmf :: "real pmf"
  assumes pos: "\<forall>q\<in>set (qs pmf). 0 < q" and nn: "\<forall>p\<in>set (ps pmf). 0 \<le> p"
    and norm: "series_sum pmf = 1"
  shows "\<exists>b. bias pmf nb = Inr b \<and> unbias b nu = Inr \<lparr>items = items pmf, name = nu\<rparr>"
proof -
  let ?xs = "items pmf"
  let ?T = "\<Sum>(q, p)\<leftarrow>?xs. p * q"
  let ?b = "\<lparr>items = map (\<lambda>(q, p). (q, p * q / ?T)) ?xs, name = nb\<rparr>"
  have T: "0 < ?T"
    using pos nn norm by (rule biased_total_pos)
  have b: "bias pmf nb = Inr ?b"
    using T by (simp add: bias_eq Let_def)
  have q0: "q \<noteq> 0" if "(q, p) \<in> set ?xs" for q p
    using item_parts [OF that] pos by auto
  have nz: "0 \<notin> set (qs ?b)"
    using pos by (auto simp add: qs_def map_fst_reweighted simp del: map_map)
  have "(\<Sum>(q, p)\<leftarrow>items ?b. p / q) = (\<Sum>(q, p)\<leftarrow>?xs. p * q / ?T / q)"
    by (simp only: series.select_convs map_items_compose)
  also have "map (\<lambda>(q, p). p * q / ?T / q) ?xs = map (\<lambda>(q, p). p / ?T) ?xs"
    by (rule map_items_cong) (simp add: q0)
  also have "sum_list (map (\<lambda>(q, p). p / ?T) ?xs) = 1 / ?T"
    using norm by (simp add: sum_items_divide series_sum_def ps_def)
  finally have t: "(\<Sum>(q, p)\<leftarrow>items ?b. p / q) = 1 / ?T" .
  have "map (\<lambda>(q, p). (q, p / q / (1 / ?T))) (items ?b)
          = map (\<lambda>(q, p). (q, p * q / ?T / q / (1 / ?T))) ?xs"
    by (simp only: series.select_convs map_items_compose)
  also have "\<dots> = map (\<lambda>(q, p). (q, p)) ?xs"
    using T by (intro map_items_cong) (simp add: q0)
  finally have it: "map (\<lambda>(q, p). (q, p / q / (1 / ?T))) (items ?b) = ?xs"
    by (simp only: map_items_id)
  have "unbias ?b nu = Inr \<lparr>items = ?xs, name = nu\<rparr>"
    using nz T by (simp only: unbias_eq t it Let_def) simp
  with b show ?thesis by blast
qed

text \<open>
  Claim C1, as amended. For a normalized \<open>Pmf\<close> (masses non-negative and summing to 1)
  whose quantities are all strictly positive, \<open>bias\<close> and then \<open>unbias\<close> both succeed
  and return a \<open>Pmf\<close> with the quantities and the masses of the original, so the mass
  at every quantity is the original mass (exactly, the masses being real numbers).
\<close>

theorem unbias_bias_roundtrip:
  fixes pmf :: "real pmf"
  assumes "\<forall>q\<in>set (qs pmf). 0 < q" and "\<forall>p\<in>set (ps pmf). 0 \<le> p"
    and "series_sum pmf = 1"
  shows "\<exists>b u. bias pmf nb = Inr b \<and> unbias b nu = Inr u
           \<and> qs u = qs pmf \<and> ps u = ps pmf \<and> (\<forall>q. lookup u q = lookup pmf q)"
proof -
  from unbias_bias_items [OF assms, of nb nu] obtain b
    where "bias pmf nb = Inr b" and "unbias b nu = Inr \<lparr>items = items pmf, name = nu\<rparr>"
    by blast
  then show ?thesis
    by (intro exI[of _ b] exI[of _ "\<lparr>items = items pmf, name = nu\<rparr>"])
       (simp add: qs_def ps_def lookup_def)
qed


text \<open>
  Claim C1 as stated covers every \<open>Pmf\<close> with strictly positive quantities. Both
  transforms normalize their result, so a \<open>Pmf\<close> that is not normalized does not come
  back: with masses 2 and 2 at the quantities 1 and 2 the round trip returns the masses
  1/2 and 1/2, a distance of 3/2 from the original at the quantity 1.
\<close>

theorem unbias_bias_unnormalized_counterexample:
  "bias \<lparr>items = [(1, 2), (2, 2)], name = None\<rparr> (Some ''b'')
     = Inr \<lparr>items = [(1, 1/3), (2, 2/3)], name = Some ''b''\<rparr>
   \<and> unbias \<lparr>items = [(1, 1/3), (2, 2/3)], name = Some ''b''\<rparr> (Some ''u'')
     = Inr \<lparr>items = [(1, 1/2), (2, 1/2)], name = Some ''u''\<rparr>
   \<and> \<bar>lookup \<lparr>items = [(1, 1/2), (2, 1/2)], name = Some ''u''\<rparr> (1::real)
        - lookup \<lparr>items = [(1, 2), (2, 2)], name = None\<rparr> (1::real)\<bar> = (3/2 :: real)"
  by (simp add: bias_eq unbias_eq qs_def lookup_def)

text \<open>The round trip of a normalized \<open>Pmf\<close> on the class sizes 7 and 12.\<close>

theorem unbias_bias_roundtrip_witness:
  "qs (\<lparr>items = [(7, 1/4), (12, 3/4)], name = None\<rparr> :: real pmf) = [7, 12]
   \<and> ps (\<lparr>items = [(7, 1/4), (12, 3/4)], name = None\<rparr> :: real pmf) = [1/4, 3/4]
   \<and> series_sum (\<lparr>items = [(7, 1/4), (12, 3/4)], name = None\<rparr> :: real pmf) = 1
   \<and> (\<exists>b u. bias \<lparr>items = [(7, 1/4), (12, 3/4)], name = None\<rparr> (Some ''b'') = Inr b
          \<and> unbias b (Some ''u'') = Inr u
          \<and> lookup u 7 = 1/4 \<and> lookup u 12 = 3/4)"
proof -
  let ?p = "\<lparr>items = [(7, 1/4), (12, 3/4)], name = None\<rparr> :: real pmf"
  have a: "\<forall>q\<in>set (qs ?p). 0 < q" and b: "\<forall>p\<in>set (ps ?p). 0 \<le> p" and c: "series_sum ?p = 1"
    by (simp_all add: qs_def ps_def series_sum_def)
  from unbias_bias_roundtrip [OF a b c, of "Some ''b''" "Some ''u''"] obtain b u
    where 1: "bias ?p (Some ''b'') = Inr b" and 2: "unbias b (Some ''u'') = Inr u"
      and 3: "\<forall>q. lookup u q = lookup ?p q"
    by blast
  from 3 have "lookup u 7 = 1/4" and "lookup u 12 = 3/4"
    by (simp_all add: lookup_def)
  moreover have "qs ?p = [7, 12]" and "ps ?p = [1/4, 3/4]"
    by (simp_all add: qs_def ps_def)
  ultimately show ?thesis using 1 2 c by blast
qed

lemma second_moment_about:
  "(\<Sum>(q, p)\<leftarrow>xs. p * (q - c)\<^sup>2)
     = (\<Sum>(q, p)\<leftarrow>xs. p * q * q) - 2 * c * (\<Sum>(q, p)\<leftarrow>xs. p * q) + c\<^sup>2 * sum_list (map snd xs)"
  for c :: real
  by (induction xs) (auto simp add: algebra_simps power2_eq_square)

lemma sum_items_divide_gen:
  "(\<Sum>(q, p)\<leftarrow>xs. g q p / (c::real)) = (\<Sum>(q, p)\<leftarrow>xs. g q p) / c"
  by (induction xs) (auto simp add: add_divide_distrib)

lemma weighted_sum_const:
  fixes c :: real
  assumes "\<And>q p. (q, p) \<in> set xs \<Longrightarrow> p \<noteq> 0 \<Longrightarrow> q = c"
  shows "(\<Sum>(q, p)\<leftarrow>xs. p * q) = c * sum_list (map snd xs)"
  using assms
proof (induction xs)
  case Nil
  then show ?case by simp
next
  case (Cons x xs)
  obtain q p where x: "x = (q, p)" by (cases x)
  have "p * q = p * c"
  proof (cases "p = 0")
    case True
    then show ?thesis by simp
  next
    case False
    with Cons.prems [of q p] x show ?thesis by simp
  qed
  moreover have "(\<Sum>(q, p)\<leftarrow>xs. p * q) = c * sum_list (map snd xs)"
    using Cons.prems by (intro Cons.IH) auto
  ultimately show ?case
    using x by (simp add: algebra_simps)
qed

lemma all_equal_to_const:
  fixes t :: real
  assumes "\<forall>(q, p)\<in>set xs. 0 < p \<longrightarrow> q = t"
  shows "\<forall>(q, p)\<in>set xs. \<forall>(q', p')\<in>set xs. (0::real) < p \<and> 0 < p' \<longrightarrow> q = q'"
proof -
  have "q = q'" if "(q, p) \<in> set xs" and "(q', p') \<in> set xs" and "0 < p" and "0 < p'"
    for q p q' p'
  proof -
    from assms that(1,3) have "q = t" by auto
    moreover from assms that(2,4) have "q' = t" by auto
    ultimately show ?thesis by simp
  qed
  then show ?thesis by blast
qed

text \<open>
  Claim C2. For a normalized \<open>Pmf\<close> (masses non-negative and summing to 1) whose
  quantities are all strictly positive, \<open>bias\<close> succeeds, the mean of the biased \<open>Pmf\<close>
  is at least the mean of the original, and the two means are equal exactly when all
  the quantities that carry positive mass are equal to one another.
\<close>

theorem bias_mean_ge:
  fixes pmf :: "real pmf"
  assumes pos: "\<forall>q\<in>set (qs pmf). 0 < q" and nn: "\<forall>p\<in>set (ps pmf). 0 \<le> p"
    and norm: "series_sum pmf = 1"
  shows "\<exists>b. bias pmf name' = Inr b \<and> mean pmf \<le> mean b
           \<and> (mean b = mean pmf \<longleftrightarrow>
                (\<forall>(q, p)\<in>set (items pmf). \<forall>(q', p')\<in>set (items pmf). 0 < p \<and> 0 < p' \<longrightarrow> q = q'))"
proof -
  let ?xs = "items pmf"
  let ?T = "\<Sum>(q, p)\<leftarrow>?xs. p * q"
  let ?S = "\<Sum>(q, p)\<leftarrow>?xs. p * q * q"
  let ?V = "\<Sum>(q, p)\<leftarrow>?xs. p * (q - ?T)\<^sup>2"
  let ?b = "\<lparr>items = map (\<lambda>(q, p). (q, p * q / ?T)) ?xs, name = name'\<rparr>"
  have T: "0 < ?T"
    using pos nn norm by (rule biased_total_pos)
  have b: "bias pmf name' = Inr ?b"
    using T by (simp add: bias_eq Let_def)
  have sum1: "sum_list (map snd ?xs) = 1"
    using norm by (simp add: series_sum_def ps_def)
  have p0: "0 \<le> p" if "(q, p) \<in> set ?xs" for q p
    using item_parts [OF that] nn by simp
  have "mean ?b = (\<Sum>(q, p)\<leftarrow>?xs. p * q / ?T * q)"
    by (simp only: mean_eq series.select_convs map_items_compose)
  also have "\<dots> = (\<Sum>(q, p)\<leftarrow>?xs. p * q * q / ?T)"
    by simp
  also have "\<dots> = ?S / ?T"
    by (rule sum_items_divide_gen)
  finally have mb: "mean ?b = ?S / ?T" .
  have mp: "mean pmf = ?T"
    by (rule mean_eq)
  have "?V = ?S - 2 * ?T * ?T + ?T\<^sup>2 * sum_list (map snd ?xs)"
    by (rule second_moment_about)
  then have V: "?V = ?S - ?T * ?T"
    by (simp only: sum1) (simp add: power2_eq_square)
  have Vnn: "0 \<le> ?V"
    by (rule sum_list_nonneg) (auto simp add: p0)
  have ge: "mean pmf \<le> mean ?b"
    using V Vnn T by (simp add: mb mp pos_le_divide_eq)
  have "mean ?b = mean pmf \<longleftrightarrow> ?V = 0"
    using V T by (simp add: mb mp divide_eq_eq)
  also have "\<dots> \<longleftrightarrow> (\<forall>x\<in>set (map (\<lambda>(q, p). p * (q - ?T)\<^sup>2) ?xs). x = 0)"
    by (rule sum_list_nonneg_eq_0_iff) (auto simp add: p0)
  also have "\<dots> \<longleftrightarrow> (\<forall>(q, p)\<in>set ?xs. 0 < p \<longrightarrow> q = ?T)"
    using p0 by (fastforce simp add: less_le)
  also have "\<dots> \<longleftrightarrow> (\<forall>(q, p)\<in>set ?xs. \<forall>(q', p')\<in>set ?xs. 0 < p \<and> 0 < p' \<longrightarrow> q = q')"
  proof
    assume "\<forall>(q, p)\<in>set ?xs. 0 < p \<longrightarrow> q = ?T"
    then show "\<forall>(q, p)\<in>set ?xs. \<forall>(q', p')\<in>set ?xs. 0 < p \<and> 0 < p' \<longrightarrow> q = q'"
      by (rule all_equal_to_const)
  next
    assume eq: "\<forall>(q, p)\<in>set ?xs. \<forall>(q', p')\<in>set ?xs. 0 < p \<and> 0 < p' \<longrightarrow> q = q'"
    from normalized_has_mass [OF nn norm] obtain q0 p0'
      where m: "(q0, p0') \<in> set ?xs" and pp: "0 < p0'" by blast
    have c: "q = q0" if "(q, p) \<in> set ?xs" and "p \<noteq> 0" for q p
    proof -
      from that p0 [OF that(1)] have "0 < p" by simp
      with eq that(1) m pp show ?thesis by fastforce
    qed
    then have "?T = q0 * sum_list (map snd ?xs)"
      by (rule weighted_sum_const)
    then have "?T = q0"
      using sum1 by simp
    with c show "\<forall>(q, p)\<in>set ?xs. 0 < p \<longrightarrow> q = ?T"
      by fastforce
  qed
  finally have "mean ?b = mean pmf \<longleftrightarrow>
      (\<forall>(q, p)\<in>set ?xs. \<forall>(q', p')\<in>set ?xs. 0 < p \<and> 0 < p' \<longrightarrow> q = q')" .
  with b ge show ?thesis by blast
qed


text \<open>
  Class sizes 7 and 12 with masses 1/4 and 3/4: the mean is 43/4 and the biased mean is
  strictly larger.
\<close>

theorem bias_mean_ge_witness:
  "qs (\<lparr>items = [(7, 1/4), (12, 3/4)], name = None\<rparr> :: real pmf) = [7, 12]
   \<and> ps (\<lparr>items = [(7, 1/4), (12, 3/4)], name = None\<rparr> :: real pmf) = [1/4, 3/4]
   \<and> series_sum (\<lparr>items = [(7, 1/4), (12, 3/4)], name = None\<rparr> :: real pmf) = 1
   \<and> mean \<lparr>items = [(7, 1/4), (12, 3/4)], name = None\<rparr> = 43/4
   \<and> (\<exists>b. bias \<lparr>items = [(7, 1/4), (12, 3/4)], name = None\<rparr> (Some ''observed'') = Inr b
          \<and> 43/4 \<le> mean b \<and> mean b \<noteq> 43/4)"
proof -
  let ?p = "\<lparr>items = [(7, 1/4), (12, 3/4)], name = None\<rparr> :: real pmf"
  have a: "\<forall>q\<in>set (qs ?p). 0 < q" and b: "\<forall>p\<in>set (ps ?p). 0 \<le> p" and c: "series_sum ?p = 1"
    by (simp_all add: qs_def ps_def series_sum_def)
  have m: "mean ?p = 43/4"
    by (simp add: mean_def qs_def ps_def)
  have d: "\<not> (\<forall>(q, p)\<in>set (items ?p). \<forall>(q', p')\<in>set (items ?p). 0 < p \<and> 0 < p' \<longrightarrow> q = q')"
    by simp
  from bias_mean_ge [OF a b c, of "Some ''observed''"] obtain b'
    where 1: "bias ?p (Some ''observed'') = Inr b'" and 2: "mean ?p \<le> mean b'"
      and 3: "mean b' = mean ?p \<longleftrightarrow>
          (\<forall>(q, p)\<in>set (items ?p). \<forall>(q', p')\<in>set (items ?p). 0 < p \<and> 0 < p' \<longrightarrow> q = q')"
    by blast
  from 3 d have "mean b' \<noteq> mean ?p" by blast
  moreover have "qs ?p = [7, 12]" and "ps ?p = [1/4, 3/4]"
    by (simp_all add: qs_def ps_def)
  ultimately show ?thesis using 1 2 m c
    by (intro conjI exI[of _ b']) simp_all
qed

section \<open>The transforms do not change their argument\<close>

lemma normalize_st_frame:
  assumes "normalize_st s a = (s', r)"
  shows "length s' = length s \<and> (\<forall>i. i \<noteq> a \<longrightarrow> s' ! i = s ! i)"
  using assms by (auto simp add: normalize_st_def split: sum.splits prod.splits)

lemma alloc_normalize_frame:
  assumes "normalize_st (s @ [obj]) (length s) = (s', r)"
  shows "take (length s) s' = s \<and> length s' = Suc (length s)
       \<and> (case normalize_pmf obj of Inl e \<Rightarrow> r = Inl e \<and> s' ! length s = obj
            | Inr (t, pmf') \<Rightarrow> r = Inr t \<and> s' ! length s = pmf')"
  using assms by (auto simp add: normalize_st_def split: sum.splits prod.splits)

lemma bias_st_frame:
  assumes "bias_st s pmf name' = (s', r)"
  shows "take (length s) s' = s
       \<and> (case r of Inl e \<Rightarrow> bias (s ! pmf) name' = Inl e
            | Inr new_pmf \<Rightarrow> new_pmf = length s \<and> new_pmf < length s'
                \<and> bias (s ! pmf) name' = Inr (s' ! new_pmf))"
proof -
  let ?obj = "\<lparr>items = map (\<lambda>(q, p). (q, p * q)) (items (s ! pmf)), name = name'\<rparr>"
  obtain s2 r2 where n: "normalize_st (s @ [?obj]) (length s) = (s2, r2)"
    by (cases "normalize_st (s @ [?obj]) (length s)")
  from alloc_normalize_frame [OF n] have f: "take (length s) s2 = s" "length s2 = Suc (length s)"
    and v: "(case normalize_pmf ?obj of Inl e \<Rightarrow> r2 = Inl e \<and> s2 ! length s = ?obj
            | Inr (t, pmf') \<Rightarrow> r2 = Inr t \<and> s2 ! length s = pmf')"
    by blast+
  have st: "bias_st s pmf name' = (case r2 of Inl e \<Rightarrow> (s2, Inl e) | Inr t \<Rightarrow> (s2, Inr (length s)))"
    by (simp add: bias_st_def Pmf_reweighted alloc_def n split: sum.splits)
  have vl: "bias (s ! pmf) name' =
      (case normalize_pmf ?obj of Inl e \<Rightarrow> Inl e | Inr (t, pmf') \<Rightarrow> Inr pmf')"
    by (simp add: bias_def Pmf_reweighted)
  show ?thesis
    using assms st vl f v by (auto split: sum.splits prod.splits)
qed


lemma unbias_st_frame:
  assumes "unbias_st s pmf name' = (s', r)"
  shows "take (length s) s' = s
       \<and> (case r of Inl e \<Rightarrow> unbias (s ! pmf) name' = Inl e
            | Inr new_pmf \<Rightarrow> new_pmf = length s \<and> new_pmf < length s'
                \<and> unbias (s ! pmf) name' = Inr (s' ! new_pmf))"
proof (cases "0 \<in> set (qs (s ! pmf))")
  case True
  with assms show ?thesis
    by (auto simp add: unbias_st_def unbias_def)
next
  case False
  let ?obj = "\<lparr>items = map (\<lambda>(q, p). (q, p / q)) (items (s ! pmf)), name = name'\<rparr>"
  obtain s2 r2 where n: "normalize_st (s @ [?obj]) (length s) = (s2, r2)"
    by (cases "normalize_st (s @ [?obj]) (length s)")
  from alloc_normalize_frame [OF n] have f: "take (length s) s2 = s" "length s2 = Suc (length s)"
    and v: "(case normalize_pmf ?obj of Inl e \<Rightarrow> r2 = Inl e \<and> s2 ! length s = ?obj
            | Inr (t, pmf') \<Rightarrow> r2 = Inr t \<and> s2 ! length s = pmf')"
    by blast+
  have st: "unbias_st s pmf name' = (case r2 of Inl e \<Rightarrow> (s2, Inl e) | Inr t \<Rightarrow> (s2, Inr (length s)))"
    using False by (simp add: unbias_st_def Pmf_reweighted alloc_def n split: sum.splits)
  have vl: "unbias (s ! pmf) name' =
      (case normalize_pmf ?obj of Inl e \<Rightarrow> Inl e | Inr (t, pmf') \<Rightarrow> Inr pmf')"
    using False by (simp add: unbias_def Pmf_reweighted)
  show ?thesis
    using assms st vl f v by (auto split: sum.splits prod.splits)
qed

lemma frame_input:
  assumes "take (length s) s' = s" and "a < length s"
  shows "s' ! a = s ! a"
  by (metis assms nth_take)

text \<open>
  Claim C9. Called on an object of the store, \<open>bias\<close> leaves that object as it was
  (same quantities, same masses, same name), and every other object allocated before the
  call too; the object it returns is a new one, allocated by the call, and holds the
  value that the function \<open>bias\<close> computes from the argument. The same holds for
  \<open>unbias\<close> when no quantity of the argument is zero. The in-place \<open>normalize\<close> runs on
  the new object only.
\<close>

theorem bias_unbias_input_unchanged:
  assumes "pmf < length s"
  shows "(\<forall>s' r. bias_st s pmf name' = (s', r) \<longrightarrow>
            s' ! pmf = s ! pmf \<and> take (length s) s' = s
          \<and> (\<forall>new_pmf. r = Inr new_pmf \<longrightarrow>
                new_pmf \<noteq> pmf \<and> length s \<le> new_pmf \<and> new_pmf < length s'
              \<and> bias (s ! pmf) name' = Inr (s' ! new_pmf)))
       \<and> (0 \<notin> set (qs (s ! pmf)) \<longrightarrow>
           (\<forall>s' r. unbias_st s pmf name' = (s', r) \<longrightarrow>
              s' ! pmf = s ! pmf \<and> take (length s) s' = s
            \<and> (\<forall>new_pmf. r = Inr new_pmf \<longrightarrow>
                  new_pmf \<noteq> pmf \<and> length s \<le> new_pmf \<and> new_pmf < length s'
                \<and> unbias (s ! pmf) name' = Inr (s' ! new_pmf))))"
proof -
  have b: "s' ! pmf = s ! pmf \<and> take (length s) s' = s
          \<and> (\<forall>new_pmf. r = Inr new_pmf \<longrightarrow>
                new_pmf \<noteq> pmf \<and> length s \<le> new_pmf \<and> new_pmf < length s'
              \<and> bias (s ! pmf) name' = Inr (s' ! new_pmf))"
    if "bias_st s pmf name' = (s', r)" for s' r
    using bias_st_frame [OF that] frame_input [of s s' pmf] assms
    by (auto split: sum.splits)
  have u: "s' ! pmf = s ! pmf \<and> take (length s) s' = s
          \<and> (\<forall>new_pmf. r = Inr new_pmf \<longrightarrow>
                new_pmf \<noteq> pmf \<and> length s \<le> new_pmf \<and> new_pmf < length s'
              \<and> unbias (s ! pmf) name' = Inr (s' ! new_pmf))"
    if "unbias_st s pmf name' = (s', r)" for s' r
    using unbias_st_frame [OF that] frame_input [of s s' pmf] assms
    by (auto split: sum.splits)
  from b u show ?thesis by blast
qed

text \<open>
  A store holding one \<open>Pmf\<close>: after each call the store holds the same object at
  address 0 and the result at address 1.
\<close>

theorem bias_unbias_input_unchanged_witness:
  "(0::nat) < length [\<lparr>items = [(7, 1/4), (12, 3/4)], name = Some ''actual''\<rparr> :: real pmf]
   \<and> bias_st [\<lparr>items = [(7, 1/4), (12, 3/4)], name = Some ''actual''\<rparr>] 0 (Some ''observed'')
       = ([\<lparr>items = [(7, 1/4), (12, 3/4)], name = Some ''actual''\<rparr>,
           \<lparr>items = [(7, 7/43), (12, 36/43)], name = Some ''observed''\<rparr>], Inr 1)
   \<and> 0 \<notin> set (qs ([\<lparr>items = [(7, 1/4), (12, 3/4)], name = Some ''actual''\<rparr> :: real pmf] ! 0))
   \<and> unbias_st [\<lparr>items = [(7, 1/4), (12, 3/4)], name = Some ''actual''\<rparr>] 0 (Some ''debiased'')
       = ([\<lparr>items = [(7, 1/4), (12, 3/4)], name = Some ''actual''\<rparr>,
           \<lparr>items = [(7, 4/11), (12, 7/11)], name = Some ''debiased''\<rparr>], Inr 1)
   \<and> bias \<lparr>items = [(7, 1/4), (12, 3/4)], name = Some ''actual''\<rparr> (Some ''observed'')
       = Inr \<lparr>items = [(7, 7/43), (12, 36/43)], name = Some ''observed''\<rparr>"
proof -
  let ?a = "\<lparr>items = [(7, 1/4), (12, 3/4)], name = Some ''actual''\<rparr> :: real pmf"
  let ?o = "\<lparr>items = [(7, 7/43), (12, 36/43)], name = Some ''observed''\<rparr> :: real pmf"
  let ?d = "\<lparr>items = [(7, 4/11), (12, 7/11)], name = Some ''debiased''\<rparr> :: real pmf"
  have a: "(0::nat) < length [?a]" by simp
  have z: "0 \<notin> set (qs ([?a] ! 0))" by (simp add: qs_def)
  have b: "bias_st [?a] 0 (Some ''observed'') = ([?a, ?o], Inr 1)"
    by (simp add: bias_st_def Pmf_def alloc_def normalize_st_def normalize_pmf_def
        series_sum_def qs_def ps_def)
  have u: "unbias_st [?a] 0 (Some ''debiased'') = ([?a, ?d], Inr 1)"
    by (simp add: unbias_st_def Pmf_def alloc_def normalize_st_def normalize_pmf_def
        series_sum_def qs_def ps_def)
  from bias_unbias_input_unchanged [OF a, of "Some ''observed''"] b
  have "bias ([?a] ! 0) (Some ''observed'') = Inr ([?a, ?o] ! 1)"
    by blast
  then have "bias ?a (Some ''observed'') = Inr ?o" by simp
  with a z b u show ?thesis by blast
qed

end
